theory Spec2Isabelle
  imports Complex_Main "HOL-Library.Multiset"
begin

section \<open>JavaScript values\<close>

text \<open>
  The diff library of \<^verbatim>\<open>src/lib/jsonDiff.ts\<close> works on the values that \<^verbatim>\<open>JSON.parse\<close>
  returns (\<^verbatim>\<open>pages/Index.tsx\<close> hands \<^verbatim>\<open>validateJSON(...).parsed\<close> to \<^verbatim>\<open>compareJSON\<close>):
  null, booleans, numbers, strings, arrays and plain objects.

  \<^item> A number is a double that the parser produced: a finite value or, on overflow, an
    infinity; never NaN. On these \<^verbatim>\<open>===\<close> is equality of the values (and \<^verbatim>\<open>-0 === 0\<close>), so
    finite numbers are rationals here.
  \<^item> An object is the list of its own properties in the order of \<^verbatim>\<open>Object.keys\<close>.
  \<^item> A parsed object inherits from \<^verbatim>\<open>Object.prototype\<close>, and the object loop of
    \<^verbatim>\<open>compareJSON\<close> tests \<^verbatim>\<open>key in obj\<close> and reads \<^verbatim>\<open>obj[key]\<close>, which both follow the
    prototype chain. So two more values can reach the code: a built-in method of
    \<^verbatim>\<open>Object.prototype\<close> (\<open>JFunction\<close>, by its name) and \<^verbatim>\<open>Object.prototype\<close> itself, which
    \<^verbatim>\<open>obj["__proto__"]\<close> answers.
\<close>

datatype jsnum = Finite rat | PosInfinity | NegInfinity

datatype jsval =
    JNull
  | JBool bool
  | JNum jsnum
  | JStr string
  | JArr "jsval list"
  | JObj "(string \<times> jsval) list"
  | JFunction string
  | JObjectPrototype

text \<open>
  The values of JSON documents: no inherited value inside.
\<close>

fun is_json :: "jsval \<Rightarrow> bool" where
  "is_json (JArr xs) = list_all is_json xs"
| "is_json (JObj kvs) = list_all (\<lambda>kv. is_json (snd kv)) kvs"
| "is_json (JFunction f) = False"
| "is_json JObjectPrototype = False"
| "is_json v = True"

text \<open>
  The own property names of \<^verbatim>\<open>Object.prototype\<close> (none of them enumerable), as the
  engines that run the page have them.
\<close>

definition Object_prototype_names :: "string list" where
  "Object_prototype_names =
     [''constructor'', ''__defineGetter__'', ''__defineSetter__'', ''hasOwnProperty'',
      ''__lookupGetter__'', ''__lookupSetter__'', ''isPrototypeOf'', ''propertyIsEnumerable'',
      ''toString'', ''valueOf'', ''__proto__'', ''toLocaleString'']"

fun typeof :: "jsval \<Rightarrow> string" where
  "typeof JNull = ''object''"
| "typeof (JBool b) = ''boolean''"
| "typeof (JNum n) = ''number''"
| "typeof (JStr s) = ''string''"
| "typeof (JArr xs) = ''object''"
| "typeof (JObj kvs) = ''object''"
| "typeof (JFunction f) = ''function''"
| "typeof JObjectPrototype = ''object''"

fun isArray :: "jsval \<Rightarrow> bool" where
  "isArray (JArr xs) = True"
| "isArray v = False"

fun elems :: "jsval \<Rightarrow> jsval list" where
  "elems (JArr xs) = xs"
| "elems v = []"

text \<open>The own enumerable properties: those of a parsed object.\<close>

fun props :: "jsval \<Rightarrow> (string \<times> jsval) list" where
  "props (JObj kvs) = kvs"
| "props v = []"

definition Object_keys :: "jsval \<Rightarrow> string list" where
  "Object_keys v = map fst (props v)"

text \<open>
  \<^verbatim>\<open>obj && key in obj\<close>: an own property or one of \<^verbatim>\<open>Object.prototype\<close>; false for null.
  The loop applies it to parsed objects and to \<^verbatim>\<open>Object.prototype\<close> only
  (\<open>object_branch\<close> below), so the last equation is never used.
\<close>

fun has_key :: "string \<Rightarrow> jsval \<Rightarrow> bool" where
  "has_key key (JObj kvs) = (key \<in> set (map fst kvs) \<or> key \<in> set Object_prototype_names)"
| "has_key key JObjectPrototype = (key \<in> set Object_prototype_names)"
| "has_key key v = False"

text \<open>
  \<^verbatim>\<open>obj[key]\<close>, with \<open>None\<close> for \<^verbatim>\<open>undefined\<close>: the own property if there is one, else the
  inherited one. \<^verbatim>\<open>__proto__\<close> is an accessor that answers the prototype of the object it
  is read from: \<^verbatim>\<open>Object.prototype\<close> for a parsed object, null for \<^verbatim>\<open>Object.prototype\<close>.
\<close>

fun get_prop :: "jsval \<Rightarrow> string \<Rightarrow> jsval option" where
  "get_prop (JObj kvs) key =
     (case map_of kvs key of
        Some x \<Rightarrow> Some x
      | None \<Rightarrow>
          if key \<in> set Object_prototype_names
          then Some (if key = ''__proto__'' then JObjectPrototype else JFunction key)
          else None)"
| "get_prop JObjectPrototype key =
     (if key \<in> set Object_prototype_names
      then Some (if key = ''__proto__'' then JNull else JFunction key)
      else None)"
| "get_prop v key = None"

text \<open>
  \<^verbatim>\<open>a === b\<close>: equality of primitives and identity of references. The built-in methods
  are distinct objects and \<^verbatim>\<open>Object.prototype\<close> is one object. Two parsed containers
  are \<^verbatim>\<open>===\<close> only when they are the same reference; \<open>deepEqual\<close> then answers true on the
  structural path as well (\<open>deepEqual_refl\<close> below), so the shortcut is left to that path.
\<close>

fun strict_eq :: "jsval \<Rightarrow> jsval \<Rightarrow> bool" where
  "strict_eq JNull JNull = True"
| "strict_eq (JBool a) (JBool b) = (a = b)"
| "strict_eq (JNum a) (JNum b) = (a = b)"
| "strict_eq (JStr a) (JStr b) = (a = b)"
| "strict_eq (JFunction a) (JFunction b) = (a = b)"
| "strict_eq JObjectPrototype JObjectPrototype = True"
| "strict_eq a b = False"

text \<open>
  The number of arrays and parsed objects in a value: the measure of the recursions
  below. An inherited value weighs nothing.
\<close>

fun weight :: "jsval \<Rightarrow> nat" where
  "weight (JArr xs) = Suc (sum_list (map weight xs))"
| "weight (JObj kvs) = Suc (sum_list (map (\<lambda>kv. weight (snd kv)) kvs))"
| "weight v = 0"

text \<open>
  \<^verbatim>\<open>deepEqual\<close>, test by test in the order of the source. The two loops that return false
  at the first difference are \<open>list_all\<close>; an index of the array loop is below both
  lengths, which are equal there.
\<close>

function deepEqual :: "jsval \<Rightarrow> jsval \<Rightarrow> bool" where
  "deepEqual a b =
    (if strict_eq a b then True
     else if a = JNull \<or> b = JNull then False
     else if typeof a \<noteq> typeof b then False
     else if typeof a = ''object'' then
       (if isArray a \<noteq> isArray b then False
        else if isArray a then
          (if length (elems a) \<noteq> length (elems b) then False
           else list_all (\<lambda>i. deepEqual (elems a ! i) (elems b ! i)) [0..<length (elems a)])
        else
          (let keysA = Object_keys a; keysB = Object_keys b in
           if length keysA \<noteq> length keysB then False
           else list_all (\<lambda>key. key \<in> set keysB \<and>
                  (case (get_prop a key, get_prop b key) of
                     (Some x, Some y) \<Rightarrow> deepEqual x y
                   | (None, None) \<Rightarrow> True
                   | _ \<Rightarrow> False)) keysA))
     else False)"
  by pat_completeness auto
termination
proof -
  have el: "weight (elems v ! i) < weight v" if "i < length (elems v)" for v i
  proof (cases v)
    case (JArr xs)
    with that have "xs ! i \<in> set xs" by simp
    then have "weight (xs ! i) \<le> sum_list (map weight xs)"
      by (simp add: member_le_sum_list)
    with JArr show ?thesis by simp
  qed (use that in simp_all)
  have pr: "weight x < weight v"
    if "key \<in> set (Object_keys v)" "get_prop v key = Some x" for v key x
  proof (cases v)
    case (JObj kvs)
    with that obtain y where "map_of kvs key = Some y"
      by (cases "map_of kvs key") (auto simp: Object_keys_def map_of_eq_None_iff)
    with that JObj have "(key, x) \<in> set kvs" by (simp add: map_of_SomeD)
    then have "weight x \<in> set (map (\<lambda>kv. weight (snd kv)) kvs)"
      by force
    then have "weight x \<le> sum_list (map (\<lambda>kv. weight (snd kv)) kvs)"
      by (rule member_le_sum_list) simp
    with JObj show ?thesis by simp
  qed (use that in \<open>simp_all add: Object_keys_def\<close>)
  show ?thesis
    by (relation "measure (\<lambda>(a, b). weight a)") (auto simp: el pr)
qed

declare deepEqual.simps [simp del]

section \<open>Diff nodes\<close>

datatype DiffType = Added | Removed | Modified | Unchanged

text \<open>
  The optional fields \<^verbatim>\<open>oldValue\<close>, \<^verbatim>\<open>newValue\<close> and \<^verbatim>\<open>children\<close> are options: \<open>None\<close> is a
  field that is absent or \<^verbatim>\<open>undefined\<close>.
\<close>

datatype DiffNode =
  DiffNode (path: string) (type: DiffType) (oldValue: "jsval option")
    (newValue: "jsval option") (children: "DiffNode list option")

fun getValueType :: "jsval \<Rightarrow> string" where
  "getValueType v = (if v = JNull then ''null'' else if isArray v then ''array'' else typeof v)"

text \<open>The decimal digits of an array index, as the template \<^verbatim>\<open>`${path}[${i}]`\<close> prints it.\<close>

fun digit :: "nat \<Rightarrow> char" where
  "digit n = ''0123456789'' ! n"

function String_nat :: "nat \<Rightarrow> string" where
  "String_nat n = (if n < 10 then [digit n] else String_nat (n div 10) @ [digit (n mod 10)])"
  by pat_completeness auto
termination
  by (relation "measure id") auto

declare String_nat.simps [simp del]

text \<open>\<^verbatim>\<open>path || "/"\<close>: the empty string is falsy.\<close>

definition path_or_root :: "string \<Rightarrow> string" where
  "path_or_root p = (if p = [] then ''/'' else p)"

text \<open>
  \<^verbatim>\<open>new Set([...])\<close>, iterated: the elements in the order of their first insertion.
\<close>

definition Set_add :: "'a list \<Rightarrow> 'a \<Rightarrow> 'a list" where
  "Set_add s x = (if x \<in> set s then s else s @ [x])"

definition new_Set :: "'a list \<Rightarrow> 'a list" where
  "new_Set xs = foldl Set_add [] xs"

text \<open>\<^verbatim>\<open>v === null || typeof v !== "object"\<close>, the test of the first branch.\<close>

definition is_primitive :: "jsval \<Rightarrow> bool" where
  "is_primitive v = (v = JNull \<or> typeof v \<noteq> ''object'')"

text \<open>
  \<^verbatim>\<open>compareJSON\<close>, branch by branch in the order of the source; the result is the array
  \<^verbatim>\<open>diffs\<close> at the \<^verbatim>\<open>return\<close>. Each loop pushes the nodes of one index or key after those
  of the one before, which is \<open>concat\<close> over the indices or keys.
  \<^item> In the array loop an index is below \<^verbatim>\<open>maxLength\<close>, so it is an index of the new array
    where it is none of the old one, and the other way round.
  \<^item> In the object loop the recursive call reads \<^verbatim>\<open>oldObj[key]\<close> and \<^verbatim>\<open>newObj[key]\<close>. The
    three cases with an \<^verbatim>\<open>undefined\<close> argument say what the call would return: two
    \<^verbatim>\<open>undefined\<close> are primitives and deep-equal, one \<^verbatim>\<open>undefined\<close> differs from any
    value. None of the three is ever taken (\<open>obj_child_split\<close> below).
\<close>

function compareJSON :: "jsval \<Rightarrow> jsval \<Rightarrow> string \<Rightarrow> DiffNode list" where
  "compareJSON oldObj newObj p =
    (if is_primitive oldObj \<and> is_primitive newObj then
       (if \<not> deepEqual oldObj newObj
        then [DiffNode (path_or_root p) Modified (Some oldObj) (Some newObj) None]
        else [DiffNode (path_or_root p) Unchanged (Some oldObj) (Some newObj) None])
     else if getValueType oldObj \<noteq> getValueType newObj then
       [DiffNode (path_or_root p) Modified (Some oldObj) (Some newObj) None]
     else if isArray oldObj \<and> isArray newObj then
       (let maxLength = max (length (elems oldObj)) (length (elems newObj));
            cs = concat (map (\<lambda>i.
                   let itemPath = p @ ''['' @ String_nat i @ '']'' in
                   if i \<ge> length (elems oldObj) then
                     [DiffNode itemPath Added None (Some (elems newObj ! i)) None]
                   else if i \<ge> length (elems newObj) then
                     [DiffNode itemPath Removed (Some (elems oldObj ! i)) None None]
                   else compareJSON (elems oldObj ! i) (elems newObj ! i) itemPath)
                 [0..<maxLength])
        in [DiffNode (path_or_root p)
              (if list_ex (\<lambda>c. type c \<noteq> Unchanged) cs then Modified else Unchanged)
              (Some oldObj) (Some newObj) (Some cs)])
     else if typeof oldObj = ''object'' \<and> typeof newObj = ''object'' then
       (let allKeys = new_Set (Object_keys oldObj @ Object_keys newObj);
            cs = concat (map (\<lambda>key.
                   let keyPath = (if p \<noteq> [] then p @ ''.'' @ key else key);
                       hasOld = has_key key oldObj;
                       hasNew = has_key key newObj in
                   if \<not> hasOld \<and> hasNew then
                     [DiffNode keyPath Added None (get_prop newObj key) None]
                   else if hasOld \<and> \<not> hasNew then
                     [DiffNode keyPath Removed (get_prop oldObj key) None None]
                   else (case (get_prop oldObj key, get_prop newObj key) of
                           (Some ov, Some nv) \<Rightarrow> compareJSON ov nv keyPath
                         | (Some ov, None) \<Rightarrow> [DiffNode keyPath Modified (Some ov) None None]
                         | (None, Some nv) \<Rightarrow> [DiffNode keyPath Modified None (Some nv) None]
                         | (None, None) \<Rightarrow> [DiffNode keyPath Unchanged None None None]))
                 allKeys)
        in [DiffNode (path_or_root p)
              (if list_ex (\<lambda>c. type c \<noteq> Unchanged) cs then Modified else Unchanged)
              (Some oldObj) (Some newObj) (Some cs)])
     else [])"
  by pat_completeness auto
termination
proof -
  have el: "weight (elems v ! i) < weight v" if "i < length (elems v)" for v i
  proof (cases v)
    case (JArr xs)
    with that have "xs ! i \<in> set xs" by simp
    then have "weight (xs ! i) \<le> sum_list (map weight xs)"
      by (simp add: member_le_sum_list)
    with JArr show ?thesis by simp
  qed (use that in simp_all)
  have own: "weight x < weight v"
    if "key \<in> set (Object_keys v)" "get_prop v key = Some x" for v key x
  proof (cases v)
    case (JObj kvs)
    with that obtain y where "map_of kvs key = Some y"
      by (cases "map_of kvs key") (auto simp: Object_keys_def map_of_eq_None_iff)
    with that JObj have "(key, x) \<in> set kvs" by (simp add: map_of_SomeD)
    then have "weight x \<in> set (map (\<lambda>kv. weight (snd kv)) kvs)"
      by force
    then have "weight x \<le> sum_list (map (\<lambda>kv. weight (snd kv)) kvs)"
      by (rule member_le_sum_list) simp
    with JObj show ?thesis by simp
  qed (use that in \<open>simp_all add: Object_keys_def\<close>)
  have any: "weight x \<le> weight v" if "get_prop v key = Some x" for v key x
  proof (cases "key \<in> set (Object_keys v)")
    case True
    with that show ?thesis using own [of key v x] by simp
  next
    case False
    show ?thesis
    proof (cases v)
      case (JObj kvs)
      with False have "map_of kvs key = None"
        by (simp add: Object_keys_def map_of_eq_None_iff)
      with that JObj show ?thesis by (auto split: if_splits)
    qed (use that in \<open>auto split: if_splits\<close>)
  qed
  have keys: "key \<in> set xs \<union> set ys" if "key \<in> set (new_Set (xs @ ys))"
    for key :: string and xs ys
  proof -
    have "set (foldl Set_add acc zs) = set acc \<union> set zs" for acc zs :: "string list"
      by (induction zs arbitrary: acc) (auto simp: Set_add_def)
    with that show ?thesis by (simp add: new_Set_def)
  qed
  have obj: "weight x + weight y < weight a + weight b"
    if "key \<in> set (new_Set (Object_keys a @ Object_keys b))"
      "get_prop a key = Some x" "get_prop b key = Some y" for a b key x y
    using keys [OF that(1)] own [of key a x] own [of key b y] any [of a key x] any [of b key y] that(2,3)
    by auto
  show ?thesis
    by (relation "measure (\<lambda>(a, b, p). weight a + weight b)")
       (auto simp: el obj intro: add_less_mono)
qed

declare compareJSON.simps [simp del]

section \<open>Statistics\<close>

text \<open>
  \<^verbatim>\<open>getDiffStats\<close>: the four counters that the closure \<^verbatim>\<open>countDiffs\<close> increments are the
  state it takes and returns. \<^verbatim>\<open>if (node.children)\<close> is true of every array, also the
  empty one.
\<close>

record DiffStats =
  added :: nat
  removed :: nat
  modified :: nat
  unchanged :: nat

fun bump :: "DiffType \<Rightarrow> DiffStats \<Rightarrow> DiffStats" where
  "bump Added st = st\<lparr>added := added st + 1\<rparr>"
| "bump Removed st = st\<lparr>removed := removed st + 1\<rparr>"
| "bump Modified st = st\<lparr>modified := modified st + 1\<rparr>"
| "bump Unchanged st = st\<lparr>unchanged := unchanged st + 1\<rparr>"

fun countDiffs :: "DiffNode list \<Rightarrow> DiffStats \<Rightarrow> DiffStats" where
  "countDiffs [] st = st"
| "countDiffs (DiffNode p t ov nv None # nodes) st = countDiffs nodes (bump t st)"
| "countDiffs (DiffNode p t ov nv (Some cs) # nodes) st =
     countDiffs nodes (countDiffs cs (bump t st))"

definition getDiffStats :: "DiffNode list \<Rightarrow> DiffStats" where
  "getDiffStats nodes = countDiffs nodes \<lparr>added = 0, removed = 0, modified = 0, unchanged = 0\<rparr>"

section \<open>Notions used to state the properties\<close>

text \<open>All nodes of a forest, each container before its children (the order of \<open>countDiffs\<close>).\<close>

fun all_nodes :: "DiffNode list \<Rightarrow> DiffNode list" where
  "all_nodes [] = []"
| "all_nodes (DiffNode p t ov nv None # nodes) = DiffNode p t ov nv None # all_nodes nodes"
| "all_nodes (DiffNode p t ov nv (Some cs) # nodes) =
     DiffNode p t ov nv (Some cs) # all_nodes cs @ all_nodes nodes"

definition count_type :: "DiffType \<Rightarrow> DiffNode list \<Rightarrow> nat" where
  "count_type t nodes = length (filter (\<lambda>n. type n = t) (all_nodes nodes))"

text \<open>
  The parts of \<open>compareJSON\<close>, named: the paths of an array item and of an object key,
  the nodes that one index or one key contributes, and the node of a container.
\<close>

definition itemPath :: "string \<Rightarrow> nat \<Rightarrow> string" where
  "itemPath p i = p @ ''['' @ String_nat i @ '']''"

definition keyPath :: "string \<Rightarrow> string \<Rightarrow> string" where
  "keyPath p key = (if p \<noteq> [] then p @ ''.'' @ key else key)"

definition arr_child :: "jsval list \<Rightarrow> jsval list \<Rightarrow> string \<Rightarrow> nat \<Rightarrow> DiffNode list" where
  "arr_child xs ys p i =
     (if i \<ge> length xs then [DiffNode (itemPath p i) Added None (Some (ys ! i)) None]
      else if i \<ge> length ys then [DiffNode (itemPath p i) Removed (Some (xs ! i)) None None]
      else compareJSON (xs ! i) (ys ! i) (itemPath p i))"

definition obj_child :: "jsval \<Rightarrow> jsval \<Rightarrow> string \<Rightarrow> string \<Rightarrow> DiffNode list" where
  "obj_child a b p key =
     (if \<not> has_key key a \<and> has_key key b then
        [DiffNode (keyPath p key) Added None (get_prop b key) None]
      else if has_key key a \<and> \<not> has_key key b then
        [DiffNode (keyPath p key) Removed (get_prop a key) None None]
      else (case (get_prop a key, get_prop b key) of
              (Some ov, Some nv) \<Rightarrow> compareJSON ov nv (keyPath p key)
            | (Some ov, None) \<Rightarrow> [DiffNode (keyPath p key) Modified (Some ov) None None]
            | (None, Some nv) \<Rightarrow> [DiffNode (keyPath p key) Modified None (Some nv) None]
            | (None, None) \<Rightarrow> [DiffNode (keyPath p key) Unchanged None None None]))"

text \<open>The values that reach the object loop: parsed objects and \<^verbatim>\<open>Object.prototype\<close>.\<close>

definition is_object :: "jsval \<Rightarrow> bool" where
  "is_object v = (typeof v = ''object'' \<and> v \<noteq> JNull \<and> \<not> isArray v)"

definition container :: "string \<Rightarrow> jsval \<Rightarrow> jsval \<Rightarrow> DiffNode list \<Rightarrow> DiffNode" where
  "container p a b cs =
     DiffNode (path_or_root p) (if list_ex (\<lambda>c. type c \<noteq> Unchanged) cs then Modified else Unchanged)
       (Some a) (Some b) (Some cs)"

text \<open>The documents \<^verbatim>\<open>{"a":{"b":1}}\<close> and \<^verbatim>\<open>{"a":{"b":2}}\<close>.\<close>

definition ex_old :: jsval where
  "ex_old = JObj [(''a'', JObj [(''b'', JNum (Finite 1))])]"

definition ex_new :: jsval where
  "ex_new = JObj [(''a'', JObj [(''b'', JNum (Finite 2))])]"

text \<open>The arrays \<^verbatim>\<open>[1,2,3]\<close> and \<^verbatim>\<open>[0,1,2]\<close>.\<close>

definition ex_arr_old :: jsval where
  "ex_arr_old = JArr [JNum (Finite 1), JNum (Finite 2), JNum (Finite 3)]"

definition ex_arr_new :: jsval where
  "ex_arr_new = JArr [JNum (Finite 0), JNum (Finite 1), JNum (Finite 2)]"

text \<open>
  \<open>only_in x y v\<close>: \<open>v\<close> is the value that \<open>x\<close> has at an index or under a key that \<open>y\<close>
  does not have. \<open>one_sided a b c\<close>: the node \<open>c\<close> is a leaf for such an index or key of
  the old value \<open>a\<close> (Removed) or of the new value \<open>b\<close> (Added). \<open>sided_children m\<close>: every
  Added or Removed child of the node \<open>m\<close> is one-sided for the two values of \<open>m\<close>.
\<close>

definition only_in :: "jsval \<Rightarrow> jsval \<Rightarrow> jsval \<Rightarrow> bool" where
  "only_in x y v =
     ((isArray x \<and> isArray y \<and>
        list_ex (\<lambda>i. elems x ! i = v) [length (elems y)..<length (elems x)])
      \<or> list_ex (\<lambda>key. key \<notin> set (Object_keys y) \<and> get_prop x key = Some v) (Object_keys x))"

definition one_sided :: "jsval \<Rightarrow> jsval \<Rightarrow> DiffNode \<Rightarrow> bool" where
  "one_sided a b c =
     (children c = None \<and>
      (case type c of
         Added \<Rightarrow> oldValue c = None \<and> (case newValue c of None \<Rightarrow> False | Some v \<Rightarrow> only_in b a v)
       | Removed \<Rightarrow> newValue c = None \<and> (case oldValue c of None \<Rightarrow> False | Some v \<Rightarrow> only_in a b v)
       | Modified \<Rightarrow> False
       | Unchanged \<Rightarrow> False))"

definition sided_children :: "DiffNode \<Rightarrow> bool" where
  "sided_children m =
     (case children m of
        None \<Rightarrow> True
      | Some cs \<Rightarrow>
          (case (oldValue m, newValue m) of
             (Some a, Some b) \<Rightarrow>
               list_all (\<lambda>c. if type c = Added \<or> type c = Removed then one_sided a b c else True) cs
           | _ \<Rightarrow> False))"


text \<open>
  The children of a node (none for a leaf), and the two rules a node may obey:
  \<open>classified\<close>, the rule of its classification, and \<open>presence\<close>, the rule of its fields.
\<close>

definition kids :: "DiffNode \<Rightarrow> DiffNode list" where
  "kids n = (case children n of None \<Rightarrow> [] | Some cs \<Rightarrow> cs)"

definition classified :: "DiffNode \<Rightarrow> bool" where
  "classified n =
     (case (oldValue n, newValue n) of
        (Some a, Some b) \<Rightarrow>
          (case children n of
             None \<Rightarrow> type n = (if deepEqual a b then Unchanged else Modified)
           | Some cs \<Rightarrow>
               type n = (if list_all (\<lambda>c. type c = Unchanged) cs then Unchanged else Modified))
      | (None, Some b) \<Rightarrow> type n = Added \<and> children n = None
      | (Some a, None) \<Rightarrow> type n = Removed \<and> children n = None
      | (None, None) \<Rightarrow> False)"

definition presence :: "DiffNode \<Rightarrow> bool" where
  "presence n = ((oldValue n = None) = (type n = Added) \<and> (newValue n = None) = (type n = Removed))"

text \<open>
  More documents: \<^verbatim>\<open>{"x":1}\<close> and \<^verbatim>\<open>{"y":1}\<close>, \<^verbatim>\<open>["u","v"]\<close> and \<^verbatim>\<open>["u"]\<close>,
  \<^verbatim>\<open>{}\<close> and \<^verbatim>\<open>{"toString":1}\<close>.
\<close>

definition ex_x :: jsval where "ex_x = JObj [(''x'', JNum (Finite 1))]"
definition ex_y :: jsval where "ex_y = JObj [(''y'', JNum (Finite 1))]"

definition ex_uv :: jsval where "ex_uv = JArr [JStr ''u'', JStr ''v'']"
definition ex_u :: jsval where "ex_u = JArr [JStr ''u'']"

definition ex_empty :: jsval where "ex_empty = JObj []"
definition ex_toString :: jsval where "ex_toString = JObj [(''toString'', JNum (Finite 1))]"

text \<open>
  What one node says, apart from the order of its children: its path, classification,
  two values and whether it is a leaf; the entries of a forest, as a multiset; and the
  mirror image of an entry, with Added and Removed exchanged and the two values swapped.
\<close>

fun mirror_type :: "DiffType \<Rightarrow> DiffType" where
  "mirror_type Added = Removed"
| "mirror_type Removed = Added"
| "mirror_type Modified = Modified"
| "mirror_type Unchanged = Unchanged"

type_synonym entry = "string \<times> DiffType \<times> jsval option \<times> jsval option \<times> bool"

definition entry :: "DiffNode \<Rightarrow> entry" where
  "entry n = (path n, type n, oldValue n, newValue n, children n = None)"

fun mirror :: "entry \<Rightarrow> entry" where
  "mirror (q, t, ov, nv, leaf) = (q, mirror_type t, nv, ov, leaf)"

definition entries :: "DiffNode list \<Rightarrow> entry multiset" where
  "entries nodes = mset (map entry (all_nodes nodes))"

section \<open>Evaluation\<close>

lemmas eval_simps =
  compareJSON.simps deepEqual.simps is_primitive_def Object_keys_def new_Set_def Set_add_def
  Object_prototype_names_def path_or_root_def String_nat.simps getDiffStats_def

section \<open>The branches of \<open>compareJSON\<close>\<close>

lemma has_key_get_prop: "has_key key v = (get_prop v key \<noteq> None)"
proof (cases v)
  case (JObj kvs)
  show ?thesis
  proof (cases "map_of kvs key")
    case None
    then have "key \<notin> set (map fst kvs)" by (simp add: map_of_eq_None_iff)
    with None JObj show ?thesis by simp
  next
    case (Some x)
    then have "key \<in> set (map fst kvs)" by (metis map_of_eq_None_iff option.distinct(1) set_map)
    with Some JObj show ?thesis by simp
  qed
qed simp_all

lemma own_key_get_prop:
  "key \<in> set (Object_keys v) \<Longrightarrow> \<exists>x. get_prop v key = Some x \<and> (key, x) \<in> set (props v)"
proof (cases v)
  case (JObj kvs)
  assume "key \<in> set (Object_keys v)"
  with JObj obtain x where "map_of kvs key = Some x"
    by (cases "map_of kvs key") (auto simp: Object_keys_def map_of_eq_None_iff)
  with JObj show ?thesis by (auto dest: map_of_SomeD)
qed (simp_all add: Object_keys_def)

lemma own_key_has_key: "key \<in> set (Object_keys v) \<Longrightarrow> has_key key v"
  using own_key_get_prop [of key v] by (auto simp: has_key_get_prop)

lemma weight_elems: "i < length (elems v) \<Longrightarrow> weight (elems v ! i) < weight v"
proof (cases v)
  case (JArr xs)
  assume "i < length (elems v)"
  with JArr have "xs ! i \<in> set xs" by simp
  then have "weight (xs ! i) \<le> sum_list (map weight xs)"
    by (simp add: member_le_sum_list)
  with JArr show ?thesis by simp
qed simp_all

lemma weight_own:
  assumes "key \<in> set (Object_keys v)" and "get_prop v key = Some x"
  shows "weight x < weight v"
proof (cases v)
  case (JObj kvs)
  from own_key_get_prop [OF assms(1)] assms(2) JObj have "(key, x) \<in> set kvs" by auto
  then have "weight x \<in> set (map (\<lambda>kv. weight (snd kv)) kvs)" by force
  then have "weight x \<le> sum_list (map (\<lambda>kv. weight (snd kv)) kvs)"
    by (rule member_le_sum_list) simp
  with JObj show ?thesis by simp
qed (use assms in \<open>simp_all add: Object_keys_def\<close>)

lemma weight_inherited:
  assumes "key \<notin> set (Object_keys v)" and "get_prop v key = Some x"
  shows "weight x = 0"
proof (cases v)
  case (JObj kvs)
  with assms(1) have "map_of kvs key = None" by (simp add: Object_keys_def map_of_eq_None_iff)
  with assms(2) JObj show ?thesis by (auto split: if_splits)
qed (use assms in \<open>auto split: if_splits\<close>)

lemma compareJSON_arr:
  "compareJSON (JArr xs) (JArr ys) p =
     [container p (JArr xs) (JArr ys)
        (concat (map (arr_child xs ys p) [0..<max (length xs) (length ys)]))]"
proof -
  have "(\<lambda>i. let ip = p @ ''['' @ String_nat i @ '']'' in
                   if i \<ge> length (elems (JArr xs)) then
                     [DiffNode ip Added None (Some (elems (JArr ys) ! i)) None]
                   else if i \<ge> length (elems (JArr ys)) then
                     [DiffNode ip Removed (Some (elems (JArr xs) ! i)) None None]
                   else compareJSON (elems (JArr xs) ! i) (elems (JArr ys) ! i) ip)
     = arr_child xs ys p"
    by (rule ext) (simp add: arr_child_def itemPath_def Let_def)
  then show ?thesis
    by (simp add: compareJSON.simps [of "JArr xs" "JArr ys" p] is_primitive_def container_def Let_def)
qed

lemma is_object_cases:
  assumes "is_object v"
  obtains (parsed) kvs where "v = JObj kvs" | (prototype) "v = JObjectPrototype"
  using assms by (cases v) (simp_all add: is_object_def)

lemma compareJSON_obj:
  assumes "is_object a" and "is_object b"
  shows "compareJSON a b p =
     [container p a b (concat (map (obj_child a b p) (new_Set (Object_keys a @ Object_keys b))))]"
proof -
  have "(\<lambda>key. if \<not> has_key key a \<and> has_key key b then
                     [DiffNode (if p \<noteq> [] then p @ ''.'' @ key else key) Added None
                        (get_prop b key) None]
                   else if has_key key a \<and> \<not> has_key key b then
                     [DiffNode (if p \<noteq> [] then p @ ''.'' @ key else key) Removed
                        (get_prop a key) None None]
                   else (case (get_prop a key, get_prop b key) of
                           (Some ov, Some nv) \<Rightarrow>
                             compareJSON ov nv (if p \<noteq> [] then p @ ''.'' @ key else key)
                         | (Some ov, None) \<Rightarrow>
                             [DiffNode (if p \<noteq> [] then p @ ''.'' @ key else key) Modified
                                (Some ov) None None]
                         | (None, Some nv) \<Rightarrow>
                             [DiffNode (if p \<noteq> [] then p @ ''.'' @ key else key) Modified
                                None (Some nv) None]
                         | (None, None) \<Rightarrow>
                             [DiffNode (if p \<noteq> [] then p @ ''.'' @ key else key) Unchanged
                                None None None]))
     = obj_child a b p"
    by (rule ext) (simp only: obj_child_def keyPath_def)
  note body = this
  from assms have c1: "(is_primitive a \<and> is_primitive b) = False"
    and c2: "(getValueType a \<noteq> getValueType b) = False"
    and c3: "(isArray a \<and> isArray b) = False"
    and c4: "(typeof a = ''object'' \<and> typeof b = ''object'') = True"
    by (auto simp: is_object_def is_primitive_def)
  show ?thesis
    by (subst compareJSON.simps) (simp only: c1 c2 c3 c4 if_False if_True Let_def body container_def)
qed

lemma deepEqual_kinds: "getValueType a \<noteq> getValueType b \<Longrightarrow> \<not> deepEqual a b"
  by (subst deepEqual.simps) (cases a; cases b; simp)

lemma compareJSON_prim:
  "is_primitive a \<Longrightarrow> is_primitive b \<Longrightarrow>
   compareJSON a b p =
     [DiffNode (path_or_root p) (if deepEqual a b then Unchanged else Modified) (Some a) (Some b) None]"
  by (simp add: compareJSON.simps [of a b p])

lemma compareJSON_kinds:
  "getValueType a \<noteq> getValueType b \<Longrightarrow>
   compareJSON a b p = [DiffNode (path_or_root p) Modified (Some a) (Some b) None]"
  by (simp add: compareJSON.simps [of a b p] deepEqual_kinds)

lemma compareJSON_cases:
  obtains (prim) "is_primitive a" "is_primitive b"
  | (kinds) "getValueType a \<noteq> getValueType b"
  | (arr) xs ys where "a = JArr xs" "b = JArr ys"
  | (obj) "is_object a" "is_object b"
  by (cases a; cases b) (simp_all add: is_primitive_def is_object_def)

text \<open>
  Past the first three tests, both values are parsed objects or \<^verbatim>\<open>Object.prototype\<close>: the
  last test of \<open>compareJSON\<close> holds, so the final \<^verbatim>\<open>return diffs\<close> with no node is never
  reached, and \<^verbatim>\<open>key in\<close> is never applied to a primitive (where it would throw).
\<close>

lemma object_branch:
  assumes "\<not> (is_primitive a \<and> is_primitive b)" and "getValueType a = getValueType b"
    and "\<not> (isArray a \<and> isArray b)"
  shows "is_object a \<and> is_object b"
  using assms by (cases a b rule: compareJSON_cases) (auto simp: is_object_def)

lemma compareJSON_single: "\<exists>n. compareJSON a b p = [n]"
  by (cases a b rule: compareJSON_cases)
     (simp_all add: compareJSON_prim compareJSON_kinds compareJSON_arr compareJSON_obj)

lemma set_new_Set: "set (new_Set xs) = set xs"
proof -
  have "set (foldl Set_add acc xs) = set acc \<union> set xs" for acc :: "'a list"
    by (induction xs arbitrary: acc) (auto simp: Set_add_def)
  then show ?thesis by (simp add: new_Set_def)
qed

lemma distinct_new_Set: "distinct (new_Set xs)"
proof -
  have "distinct (foldl Set_add acc xs)" if "distinct acc" for acc :: "'a list"
    using that by (induction xs arbitrary: acc) (auto simp: Set_add_def)
  then show ?thesis by (simp add: new_Set_def)
qed

lemma compareJSON_induct [case_names prim kinds arr obj]:
  assumes prim: "\<And>a b p. is_primitive a \<Longrightarrow> is_primitive b \<Longrightarrow> P a b p"
    and kinds: "\<And>a b p. getValueType a \<noteq> getValueType b \<Longrightarrow> P a b p"
    and arr: "\<And>xs ys p. (\<And>i. i < length xs \<Longrightarrow> i < length ys \<Longrightarrow> P (xs ! i) (ys ! i) (itemPath p i))
                \<Longrightarrow> P (JArr xs) (JArr ys) p"
    and obj: "\<And>a b p. is_object a \<Longrightarrow> is_object b \<Longrightarrow>
                (\<And>key ov nv. key \<in> set (Object_keys a) \<union> set (Object_keys b) \<Longrightarrow>
                    get_prop a key = Some ov \<Longrightarrow> get_prop b key = Some nv
                   \<Longrightarrow> P ov nv (keyPath p key))
                \<Longrightarrow> P a b p"
  shows "P a b p"
proof (induction "weight a + weight b" arbitrary: a b p rule: less_induct)
  case (less a b p)
  show ?case
  proof (cases a b rule: compareJSON_cases)
    case prim
    then show ?thesis by (rule assms(1))
  next
    case kinds
    then show ?thesis by (rule assms(2))
  next
    case (arr xs ys)
    have "P (xs ! i) (ys ! i) (itemPath p i)" if "i < length xs" "i < length ys" for i
    proof (rule less)
      from that weight_elems [of i a] weight_elems [of i b] arr
      show "weight (xs ! i) + weight (ys ! i) < weight a + weight b" by simp
    qed
    with arr show ?thesis by (simp add: assms(3))
  next
    case obj
    have "P ov nv (keyPath p key)"
      if "key \<in> set (Object_keys a) \<union> set (Object_keys b)"
        "get_prop a key = Some ov" "get_prop b key = Some nv" for key ov nv
    proof (rule less)
      show "weight ov + weight nv < weight a + weight b"
      proof (cases "key \<in> set (Object_keys a)")
        case True
        then have "weight ov < weight a" using that(2) by (rule weight_own)
        moreover have "weight nv \<le> weight b"
          using weight_own [of key b nv] weight_inherited [of key b nv] that(3)
          by (cases "key \<in> set (Object_keys b)") auto
        ultimately show ?thesis by simp
      next
        case False
        with that(1) have "key \<in> set (Object_keys b)" by simp
        then have "weight nv < weight b" using that(3) by (rule weight_own)
        moreover from False that(2) have "weight ov = 0" by (rule weight_inherited)
        ultimately show ?thesis by simp
      qed
    qed
    with obj show ?thesis by (rule assms(4))
  qed
qed

lemma all_nodes_append: "all_nodes (xs @ ys) = all_nodes xs @ all_nodes ys"
  by (induction xs rule: all_nodes.induct) simp_all

lemma all_nodes_concat: "all_nodes (concat xss) = concat (map all_nodes xss)"
  by (induction xss) (simp_all add: all_nodes_append)

lemma all_nodes_container:
  "all_nodes [container p a b cs] = container p a b cs # all_nodes cs"
  by (simp add: container_def)

lemma set_subset_all_nodes: "set ns \<subseteq> set (all_nodes ns)"
  by (induction ns rule: all_nodes.induct) auto

lemma concat_singletons:
  "(\<And>x. x \<in> set xs \<Longrightarrow> \<exists>n. f x = [n]) \<Longrightarrow> concat (map f xs) = map (\<lambda>x. hd (f x)) xs"
proof (induction xs)
  case Nil
  show ?case by simp
next
  case (Cons x xs)
  from Cons.prems [of x] obtain n where "f x = [n]" by auto
  moreover have "concat (map f xs) = map (\<lambda>x. hd (f x)) xs"
    by (rule Cons.IH) (simp add: Cons.prems)
  ultimately show ?case by simp
qed

lemma arr_child_single: "\<exists>n. arr_child xs ys p i = [n]"
  by (simp add: arr_child_def compareJSON_single)

lemma arr_children:
  "concat (map (arr_child xs ys p) [0..<n]) = map (\<lambda>i. hd (arr_child xs ys p i)) [0..<n]"
  by (rule concat_singletons) (rule arr_child_single)

lemma compareJSON_root:
  assumes "compareJSON a b p = [n]"
  shows "path n = path_or_root p \<and> oldValue n = Some a \<and> newValue n = Some b
    \<and> (type n = Modified \<or> type n = Unchanged)"
proof (cases a b rule: compareJSON_cases)
  case prim
  with assms show ?thesis by (auto simp: compareJSON_prim)
next
  case kinds
  with assms show ?thesis by (auto simp: compareJSON_kinds)
next
  case (arr xs ys)
  with assms show ?thesis by (auto simp: compareJSON_arr container_def split: if_splits)
next
  case obj
  with assms show ?thesis by (auto simp: compareJSON_obj container_def split: if_splits)
qed

lemma arr_child_cases [consumes 1, case_names added removed both]:
  assumes "c \<in> set (concat (map (arr_child xs ys p) [0..<max (length xs) (length ys)]))"
  obtains (added) i where "length xs \<le> i" "i < length ys"
      "c = DiffNode (itemPath p i) Added None (Some (ys ! i)) None"
  | (removed) i where "length ys \<le> i" "i < length xs"
      "c = DiffNode (itemPath p i) Removed (Some (xs ! i)) None None"
  | (both) i where "i < length xs" "i < length ys"
      "compareJSON (xs ! i) (ys ! i) (itemPath p i) = [c]"
proof -
  from assms obtain i where i: "i < max (length xs) (length ys)" and c: "c \<in> set (arr_child xs ys p i)"
    by auto
  obtain n where n: "compareJSON (xs ! i) (ys ! i) (itemPath p i) = [n]"
    using compareJSON_single by blast
  show thesis
  proof (cases "length xs \<le> i")
    case True
    with i c show thesis by (intro added [of i]) (auto simp: arr_child_def)
  next
    case nx: False
    show thesis
    proof (cases "length ys \<le> i")
      case True
      with nx c show thesis by (intro removed [of i]) (auto simp: arr_child_def)
    next
      case False
      with nx c n show thesis by (intro both [of i]) (auto simp: arr_child_def)
    qed
  qed
qed

text \<open>
  What one key of the loop contributes. An Added leaf requires that the key is in the new
  object only, an own key of it; a key that the old object inherits takes the third case.
\<close>

lemma obj_child_split [consumes 1, case_names added removed both]:
  assumes "key \<in> set (Object_keys a) \<union> set (Object_keys b)"
  obtains (added) v where "\<not> has_key key a" "key \<in> set (Object_keys b)"
      "get_prop b key = Some v"
      "obj_child a b p key = [DiffNode (keyPath p key) Added None (Some v) None]"
  | (removed) v where "\<not> has_key key b" "key \<in> set (Object_keys a)"
      "get_prop a key = Some v"
      "obj_child a b p key = [DiffNode (keyPath p key) Removed (Some v) None None]"
  | (both) ov nv where "get_prop a key = Some ov" "get_prop b key = Some nv"
      "obj_child a b p key = compareJSON ov nv (keyPath p key)"
proof (cases "has_key key a")
  case True
  then obtain ov where ov: "get_prop a key = Some ov" by (auto simp: has_key_get_prop)
  show thesis
  proof (cases "has_key key b")
    case True
    then obtain nv where nv: "get_prop b key = Some nv" by (auto simp: has_key_get_prop)
    with ov \<open>has_key key a\<close> True show thesis
      by (intro both [of ov nv]) (simp_all add: obj_child_def)
  next
    case False
    with assms have "key \<in> set (Object_keys a)" using own_key_has_key by auto
    with ov \<open>has_key key a\<close> False show thesis
      by (intro removed [of ov]) (simp_all add: obj_child_def)
  qed
next
  case False
  with assms have own: "key \<in> set (Object_keys b)" using own_key_has_key by auto
  then have "has_key key b" by (rule own_key_has_key)
  moreover then obtain v where "get_prop b key = Some v" by (auto simp: has_key_get_prop)
  ultimately show thesis using False own
    by (intro added [of v]) (simp_all add: obj_child_def)
qed

lemma obj_child_cases [consumes 1, case_names added removed both]:
  assumes "c \<in> set (concat (map (obj_child a b p) (new_Set (Object_keys a @ Object_keys b))))"
  obtains (added) key v where "\<not> has_key key a" "key \<in> set (Object_keys b)"
      "get_prop b key = Some v" "c = DiffNode (keyPath p key) Added None (Some v) None"
  | (removed) key v where "\<not> has_key key b" "key \<in> set (Object_keys a)"
      "get_prop a key = Some v" "c = DiffNode (keyPath p key) Removed (Some v) None None"
  | (both) key ov nv where "key \<in> set (Object_keys a) \<union> set (Object_keys b)"
      "get_prop a key = Some ov" "get_prop b key = Some nv"
      "compareJSON ov nv (keyPath p key) = [c]"
proof -
  from assms obtain key where key: "key \<in> set (Object_keys a) \<union> set (Object_keys b)"
    and c: "c \<in> set (obj_child a b p key)"
    by (auto simp: set_new_Set)
  from key show thesis
  proof (cases rule: obj_child_split [where p = p])
    case (added v)
    with c show ?thesis by (intro that(1) [of key v]) simp_all
  next
    case (removed v)
    with c show ?thesis by (intro that(2) [of key v]) simp_all
  next
    case (both ov nv)
    obtain n where "compareJSON ov nv (keyPath p key) = [n]"
      using compareJSON_single by blast
    with both c key show ?thesis by (intro that(3) [of key ov nv]) simp_all
  qed
qed

lemma node_origin:
  "n \<in> set (all_nodes (compareJSON a b p)) \<Longrightarrow>
     (\<exists>a' b' p'. compareJSON a' b' p' = [n])
   \<or> (\<exists>q v. n = DiffNode q Added None (Some v) None)
   \<or> (\<exists>q v. n = DiffNode q Removed (Some v) None None)"
proof (induction a b p rule: compareJSON_induct)
  case (prim a b p)
  then have "compareJSON a b p = [n]" by (simp add: compareJSON_prim split: if_splits)
  then show ?case by blast
next
  case (kinds a b p)
  then have "compareJSON a b p = [n]" by (simp add: compareJSON_kinds)
  then show ?case by blast
next
  case (arr xs ys p)
  let ?cs = "concat (map (arr_child xs ys p) [0..<max (length xs) (length ys)])"
  from arr.prems consider "compareJSON (JArr xs) (JArr ys) p = [n]"
    | i where "i < max (length xs) (length ys)" "n \<in> set (all_nodes (arr_child xs ys p i))"
    by (auto simp: compareJSON_arr all_nodes_container all_nodes_concat)
  then show ?case
  proof cases
    case 1
    then show ?thesis by blast
  next
    case 2
    then show ?thesis using arr.IH [of i]
      by (auto simp: arr_child_def split: if_splits)
  qed
next
  case (obj a b p)
  let ?ks = "new_Set (Object_keys a @ Object_keys b)"
  let ?cs = "concat (map (obj_child a b p) ?ks)"
  from obj.prems obj.hyps have "n = container p a b ?cs \<or> n \<in> set (all_nodes ?cs)"
    by (simp add: compareJSON_obj all_nodes_container)
  then consider "compareJSON a b p = [n]"
    | key where "key \<in> set (Object_keys a) \<union> set (Object_keys b)"
        "n \<in> set (all_nodes (obj_child a b p key))"
  proof
    assume "n = container p a b ?cs"
    with obj.hyps have "compareJSON a b p = [n]" by (simp add: compareJSON_obj)
    then show ?thesis by (rule that(1))
  next
    assume "n \<in> set (all_nodes ?cs)"
    then obtain key where "key \<in> set ?ks" "n \<in> set (all_nodes (obj_child a b p key))"
      by (auto simp: all_nodes_concat)
    then show ?thesis by (intro that(2) [of key]) (simp_all add: set_new_Set)
  qed
  then show ?case
  proof cases
    case 1
    then show ?thesis by blast
  next
    case 2
    from 2(1) show ?thesis
    proof (cases rule: obj_child_split [where p = p])
      case (added v)
      with 2 show ?thesis by simp
    next
      case (removed v)
      with 2 show ?thesis by simp
    next
      case (both ov nv)
      with 2 have "n \<in> set (all_nodes (compareJSON ov nv (keyPath p key)))" by simp
      with both 2(1) show ?thesis using obj.IH [of key ov nv] by simp
    qed
  qed
qed

lemma node_cases [consumes 1, case_names root added removed]:
  assumes "n \<in> set (all_nodes (compareJSON a b p))"
  obtains (root) a' b' p' where "compareJSON a' b' p' = [n]"
  | (added) q v where "n = DiffNode q Added None (Some v) None"
  | (removed) q v where "n = DiffNode q Removed (Some v) None None"
  using node_origin [OF assms] by blast

lemma presence_all:
  assumes "n \<in> set (all_nodes (compareJSON a b p))"
  shows "presence n"
  using assms
proof (cases rule: node_cases)
  case (root a' b' p')
  then show ?thesis using compareJSON_root [OF root] by (auto simp: presence_def)
qed (simp_all add: presence_def)

lemma classified_root: "compareJSON a b p = [n] \<Longrightarrow> classified n"
proof (cases a b rule: compareJSON_cases)
  case prim
  assume "compareJSON a b p = [n]"
  with prim show ?thesis by (auto simp: compareJSON_prim classified_def)
next
  case kinds
  assume "compareJSON a b p = [n]"
  with kinds show ?thesis by (auto simp: compareJSON_kinds classified_def deepEqual_kinds)
next
  case (arr xs ys)
  assume "compareJSON a b p = [n]"
  with arr show ?thesis
    by (auto simp: compareJSON_arr container_def classified_def list_ex_iff list_all_iff)
next
  case obj
  assume "compareJSON a b p = [n]"
  with obj show ?thesis
    by (auto simp: compareJSON_obj container_def classified_def list_ex_iff list_all_iff)
qed

lemma classified_all:
  assumes "n \<in> set (all_nodes (compareJSON a b p))"
  shows "classified n"
  using assms
proof (cases rule: node_cases)
  case (root a' b' p')
  then show ?thesis by (rule classified_root)
qed (simp_all add: classified_def)

lemma sided_children_root: "compareJSON a b p = [n] \<Longrightarrow> sided_children n"
proof (cases a b rule: compareJSON_cases)
  case prim
  assume "compareJSON a b p = [n]"
  with prim show ?thesis by (auto simp: compareJSON_prim sided_children_def)
next
  case kinds
  assume "compareJSON a b p = [n]"
  with kinds show ?thesis by (auto simp: compareJSON_kinds sided_children_def)
next
  case (arr xs ys)
  define cs where "cs = concat (map (arr_child xs ys p) [0..<max (length xs) (length ys)])"
  assume "compareJSON a b p = [n]"
  with arr have n: "n = container p (JArr xs) (JArr ys) cs" by (simp add: compareJSON_arr cs_def)
  have "one_sided (JArr xs) (JArr ys) c" if "c \<in> set cs" "type c = Added \<or> type c = Removed" for c
    using that(1) unfolding cs_def
  proof (cases rule: arr_child_cases)
    case (added i)
    then show ?thesis by (auto simp: one_sided_def only_in_def list_ex_iff)
  next
    case (removed i)
    then show ?thesis by (auto simp: one_sided_def only_in_def list_ex_iff)
  next
    case (both i)
    then show ?thesis using compareJSON_root [OF both(3)] that(2) by auto
  qed
  then have "list_all (\<lambda>c. if type c = Added \<or> type c = Removed
      then one_sided (JArr xs) (JArr ys) c else True) cs"
    by (simp add: list_all_iff)
  with n show ?thesis by (simp add: sided_children_def container_def)
next
  case obj
  define cs where "cs = concat (map (obj_child a b p) (new_Set (Object_keys a @ Object_keys b)))"
  assume "compareJSON a b p = [n]"
  with obj have n: "n = container p a b cs" by (simp add: compareJSON_obj cs_def)
  have "one_sided a b c" if "c \<in> set cs" "type c = Added \<or> type c = Removed" for c
    using that(1) unfolding cs_def
  proof (cases rule: obj_child_cases)
    case (added key v)
    from added(1) have "key \<notin> set (Object_keys a)" using own_key_has_key by blast
    with added show ?thesis
      by (auto simp: one_sided_def only_in_def list_ex_iff)
  next
    case (removed key v)
    from removed(1) have "key \<notin> set (Object_keys b)" using own_key_has_key by blast
    with removed show ?thesis
      by (auto simp: one_sided_def only_in_def list_ex_iff)
  next
    case (both key ov nv)
    then show ?thesis using compareJSON_root [OF both(4)] that(2) by auto
  qed
  then have "list_all (\<lambda>c. if type c = Added \<or> type c = Removed
      then one_sided a b c else True) cs"
    by (simp add: list_all_iff)
  with n show ?thesis by (simp add: sided_children_def container_def)
qed

lemma sided_children_all:
  assumes "n \<in> set (all_nodes (compareJSON a b p))"
  shows "sided_children n"
  using assms
proof (cases rule: node_cases)
  case (root a' b' p')
  then show ?thesis by (rule sided_children_root)
qed (simp_all add: sided_children_def)

lemma ex_xy: "compareJSON ex_x ex_y '''' =
   [DiffNode ''/'' Modified (Some ex_x) (Some ex_y) (Some
      [DiffNode ''x'' Removed (Some (JNum (Finite 1))) None None,
       DiffNode ''y'' Added None (Some (JNum (Finite 1))) None])]"
  by (simp add: ex_x_def ex_y_def eval_simps)

lemma kids_arr:
  assumes "compareJSON (JArr xs) (JArr ys) p = [n]" and "i < max (length xs) (length ys)"
    and "c \<in> set (arr_child xs ys p i)"
  shows "c \<in> set (kids n)"
proof -
  from assms(1)
  have "kids n = concat (map (arr_child xs ys p) [0..<max (length xs) (length ys)])"
    by (auto simp: compareJSON_arr container_def kids_def)
  moreover from assms(2,3)
  have "\<exists>j\<in>set [0..<max (length xs) (length ys)]. c \<in> set (arr_child xs ys p j)"
    by (intro bexI [of _ i]) simp_all
  ultimately show ?thesis by simp
qed

lemma kids_obj:
  assumes "compareJSON a b p = [n]" and "is_object a" and "is_object b"
    and "key \<in> set (Object_keys a) \<union> set (Object_keys b)"
    and "c \<in> set (obj_child a b p key)"
  shows "c \<in> set (kids n)"
proof -
  from assms(1,2,3)
  have "kids n = concat (map (obj_child a b p) (new_Set (Object_keys a @ Object_keys b)))"
    by (auto simp: compareJSON_obj container_def kids_def)
  moreover from assms(4,5)
  have "\<exists>k\<in>set (new_Set (Object_keys a @ Object_keys b)). c \<in> set (obj_child a b p k)"
    by (intro bexI [of _ key]) (simp_all add: set_new_Set)
  ultimately show ?thesis by simp
qed

lemma deepEqual_primitive: "is_primitive a \<Longrightarrow> is_primitive b \<Longrightarrow> deepEqual a b = strict_eq a b"
  by (subst deepEqual.simps) (cases a; cases b; simp add: is_primitive_def)

lemma strict_eq_refl: "is_primitive a \<Longrightarrow> strict_eq a a"
  by (cases a) (simp_all add: is_primitive_def)

lemma strict_eq_sym: "strict_eq a b = strict_eq b a"
  by (cases a; cases b) auto

lemma deepEqual_refl: "deepEqual v v"
proof (induction v)
  case (JArr xs)
  have "list_all (\<lambda>i. deepEqual (xs ! i) (xs ! i)) [0..<length xs]"
    using JArr by (simp add: list_all_iff)
  then show ?case by (subst deepEqual.simps) simp
next
  case (JObj kvs)
  have "key \<in> set (map fst kvs) \<and>
      (case (get_prop (JObj kvs) key, get_prop (JObj kvs) key) of
         (Some x, Some y) \<Rightarrow> deepEqual x y
       | (None, None) \<Rightarrow> True
       | _ \<Rightarrow> False)" if "key \<in> set (map fst kvs)" for key
  proof -
    from that obtain x where x: "get_prop (JObj kvs) key = Some x" "(key, x) \<in> set kvs"
      using own_key_get_prop [of key "JObj kvs"] by (auto simp: Object_keys_def)
    from x(2) have "deepEqual x x" by (rule JObj.IH) simp
    with x(1) that show ?thesis by simp
  qed
  then have "list_all (\<lambda>key. key \<in> set (map fst kvs) \<and>
      (case (get_prop (JObj kvs) key, get_prop (JObj kvs) key) of
         (Some x, Some y) \<Rightarrow> deepEqual x y
       | (None, None) \<Rightarrow> True
       | _ \<Rightarrow> False)) (map fst kvs)"
    unfolding list_all_iff by blast
  then show ?case
    by (subst deepEqual.simps) (simp add: Object_keys_def del: get_prop.simps)
qed (simp_all add: deepEqual.simps)

lemma all_unchanged:
  "a = b \<Longrightarrow> list_all (\<lambda>n. type n = Unchanged) (all_nodes (compareJSON a b p))"
proof (induction a b p rule: compareJSON_induct)
  case (prim a b p)
  then show ?case by (simp add: compareJSON_prim deepEqual_primitive strict_eq_refl)
next
  case (kinds a b p)
  then show ?case by simp
next
  case (arr xs ys p)
  define cs where "cs = concat (map (arr_child xs xs p) [0..<length xs])"
  have "type n = Unchanged" if "n \<in> set (all_nodes cs)" for n
  proof -
    from that obtain i where i: "i < length xs" and n: "n \<in> set (all_nodes (arr_child xs xs p i))"
      by (auto simp: cs_def all_nodes_concat)
    with arr have "list_all (\<lambda>n. type n = Unchanged) (all_nodes (compareJSON (xs ! i) (xs ! i) (itemPath p i)))"
      by simp
    with i n show ?thesis by (simp add: arr_child_def list_all_iff)
  qed
  then have all: "list_all (\<lambda>n. type n = Unchanged) (all_nodes cs)" by (simp add: list_all_iff)
  moreover have "\<not> list_ex (\<lambda>c. type c \<noteq> Unchanged) cs"
    using all set_subset_all_nodes [of cs] by (auto simp: list_all_iff list_ex_iff)
  ultimately show ?case using arr.prems
    by (simp add: compareJSON_arr all_nodes_container container_def cs_def)
next
  case (obj a b p)
  define cs where "cs = concat (map (obj_child a a p) (new_Set (Object_keys a @ Object_keys a)))"
  have "type n = Unchanged" if "n \<in> set (all_nodes cs)" for n
  proof -
    from that obtain key where key: "key \<in> set (Object_keys a) \<union> set (Object_keys a)"
      and n: "n \<in> set (all_nodes (obj_child a a p key))"
      by (auto simp: cs_def all_nodes_concat set_new_Set)
    from key show ?thesis
    proof (cases rule: obj_child_split [where p = p])
      case (added v)
      then show ?thesis using own_key_has_key by blast
    next
      case (removed v)
      then show ?thesis using own_key_has_key by blast
    next
      case (both ov nv)
      with key obj.prems
      have "list_all (\<lambda>n. type n = Unchanged) (all_nodes (compareJSON ov nv (keyPath p key)))"
        by (intro obj.IH [of key ov nv]) simp_all
      with both n show ?thesis by (simp add: list_all_iff)
    qed
  qed
  then have all: "list_all (\<lambda>n. type n = Unchanged) (all_nodes cs)" by (simp add: list_all_iff)
  moreover have "\<not> list_ex (\<lambda>c. type c \<noteq> Unchanged) cs"
    using all set_subset_all_nodes [of cs] by (auto simp: list_all_iff list_ex_iff)
  ultimately show ?case using obj.prems obj.hyps
    by (simp add: compareJSON_obj all_nodes_container container_def cs_def)
qed

section \<open>Mirror images\<close>

lemma entries_append: "entries (xs @ ys) = entries xs + entries ys"
  by (simp add: entries_def all_nodes_append)

lemma entries_concat_map: "entries (concat (map f ks)) = (\<Sum>k\<in>#mset ks. entries (f k))"
  by (induction ks) (simp_all add: entries_append, simp add: entries_def)

lemma entries_container:
  "entries [container p a b cs] = add_mset (entry (container p a b cs)) (entries cs)"
  by (simp add: entries_def all_nodes_container)

lemma image_mset_sum_mset:
  "image_mset g (\<Sum>k\<in>#M. e k) = (\<Sum>k\<in>#M. image_mset g (e k))"
  by (induction M) simp_all

lemma entries_children_mirror:
  assumes "mset ks' = mset ks"
    and "\<And>k. k \<in> set ks \<Longrightarrow> entries (f' k) = image_mset mirror (entries (f k))"
  shows "entries (concat (map f' ks')) = image_mset mirror (entries (concat (map f ks)))"
proof -
  have "(\<Sum>k\<in>#mset ks. entries (f' k)) = (\<Sum>k\<in>#mset ks. image_mset mirror (entries (f k)))"
    using assms(2) by (intro arg_cong [where f = sum_mset] image_mset_cong) simp
  then show ?thesis by (simp add: entries_concat_map assms(1) image_mset_sum_mset)
qed

lemma list_ex_children:
  assumes "set ks' = set ks"
    and "\<And>k. k \<in> set ks \<Longrightarrow> list_ex P (f' k) = list_ex P (f k)"
  shows "list_ex P (concat (map f' ks')) = list_ex P (concat (map f ks))"
  using assms by (auto simp: list_ex_iff)

lemma mset_new_Set_commute: "mset (new_Set (xs @ ys)) = mset (new_Set (ys @ xs))"
  by (rule set_eq_iff_mset_eq_distinct [THEN iffD1])
     (auto simp: distinct_new_Set set_new_Set)

lemma list_ex_types:
  "map type cs' = map type cs \<Longrightarrow>
   list_ex (\<lambda>c. type c \<noteq> Unchanged) cs' = list_ex (\<lambda>c. type c \<noteq> Unchanged) cs"
proof -
  assume eq: "map type cs' = map type cs"
  have "list_ex (\<lambda>c. type c \<noteq> Unchanged) xs = (\<exists>t\<in>set (map type xs). t \<noteq> Unchanged)" for xs
    by (auto simp: list_ex_iff)
  then show ?thesis by (simp only: eq)
qed

lemma symmetry:
  "entries (compareJSON b a p) = image_mset mirror (entries (compareJSON a b p))
   \<and> map type (compareJSON b a p) = map type (compareJSON a b p)"
proof (induction a b p rule: compareJSON_induct)
  case (prim a b p)
  then have "deepEqual b a = deepEqual a b"
    using strict_eq_sym [of a b] by (simp add: deepEqual_primitive)
  with prim show ?case
    by (simp add: compareJSON_prim entries_def entry_def)
next
  case (kinds a b p)
  then have "getValueType b \<noteq> getValueType a" by simp
  with kinds show ?case by (simp add: compareJSON_kinds entries_def entry_def)
next
  case (arr xs ys p)
  let ?is = "[0..<max (length xs) (length ys)]"
  have child: "entries (arr_child ys xs p i) = image_mset mirror (entries (arr_child xs ys p i))
      \<and> list_ex (\<lambda>c. type c \<noteq> Unchanged) (arr_child ys xs p i)
          = list_ex (\<lambda>c. type c \<noteq> Unchanged) (arr_child xs ys p i)"
    if "i \<in> set ?is" for i
  proof (cases "i < length xs \<and> i < length ys")
    case True
    with arr [of i]
    have ih: "entries (compareJSON (ys ! i) (xs ! i) (itemPath p i))
        = image_mset mirror (entries (compareJSON (xs ! i) (ys ! i) (itemPath p i)))"
      "map type (compareJSON (ys ! i) (xs ! i) (itemPath p i))
        = map type (compareJSON (xs ! i) (ys ! i) (itemPath p i))"
      by simp_all
    from ih(2) have "list_ex (\<lambda>c. type c \<noteq> Unchanged) (compareJSON (ys ! i) (xs ! i) (itemPath p i))
        = list_ex (\<lambda>c. type c \<noteq> Unchanged) (compareJSON (xs ! i) (ys ! i) (itemPath p i))"
      by (rule list_ex_types)
    with ih(1) True show ?thesis by (simp add: arr_child_def)
  next
    case False
    with that show ?thesis by (auto simp: arr_child_def entries_def entry_def)
  qed
  have "entries (concat (map (arr_child ys xs p) ?is))
      = image_mset mirror (entries (concat (map (arr_child xs ys p) ?is)))"
    by (rule entries_children_mirror) (simp_all add: child)
  moreover have "list_ex (\<lambda>c. type c \<noteq> Unchanged) (concat (map (arr_child ys xs p) ?is))
      = list_ex (\<lambda>c. type c \<noteq> Unchanged) (concat (map (arr_child xs ys p) ?is))"
    by (rule list_ex_children) (simp_all add: child)
  ultimately show ?case
    by (simp add: compareJSON_arr entries_container max.commute) (simp add: container_def entry_def)
next
  case (obj a b p)
  let ?ks = "new_Set (Object_keys a @ Object_keys b)"
  let ?ks' = "new_Set (Object_keys b @ Object_keys a)"
  have ks: "mset ?ks' = mset ?ks" by (rule mset_new_Set_commute)
  then have ks_set: "set ?ks' = set ?ks" by (rule mset_eq_setD)
  have child: "entries (obj_child b a p key) = image_mset mirror (entries (obj_child a b p key))
      \<and> list_ex (\<lambda>c. type c \<noteq> Unchanged) (obj_child b a p key)
          = list_ex (\<lambda>c. type c \<noteq> Unchanged) (obj_child a b p key)"
    if "key \<in> set ?ks" for key
  proof -
    from that have "key \<in> set (Object_keys a) \<union> set (Object_keys b)" by (simp add: set_new_Set)
    then show ?thesis
    proof (cases rule: obj_child_split [where p = p])
      case (added v)
      moreover from added have "has_key key b" by (simp add: has_key_get_prop)
      ultimately show ?thesis by (simp add: obj_child_def entries_def entry_def)
    next
      case (removed v)
      moreover from removed have "has_key key a" by (simp add: has_key_get_prop)
      ultimately show ?thesis by (simp add: obj_child_def entries_def entry_def)
    next
      case (both ov nv)
      with obj.IH [of key ov nv] \<open>key \<in> set (Object_keys a) \<union> set (Object_keys b)\<close>
      have ih: "entries (compareJSON nv ov (keyPath p key))
          = image_mset mirror (entries (compareJSON ov nv (keyPath p key)))"
        "map type (compareJSON nv ov (keyPath p key)) = map type (compareJSON ov nv (keyPath p key))"
        by simp_all
      from ih(2) have "list_ex (\<lambda>c. type c \<noteq> Unchanged) (compareJSON nv ov (keyPath p key))
          = list_ex (\<lambda>c. type c \<noteq> Unchanged) (compareJSON ov nv (keyPath p key))"
        by (rule list_ex_types)
      moreover from both have "has_key key a" "has_key key b" by (simp_all add: has_key_get_prop)
      moreover from this both have "obj_child b a p key = compareJSON nv ov (keyPath p key)"
        by (simp add: obj_child_def)
      ultimately show ?thesis using ih(1) both by simp
    qed
  qed
  have "entries (concat (map (obj_child b a p) ?ks'))
      = image_mset mirror (entries (concat (map (obj_child a b p) ?ks)))"
    using ks by (rule entries_children_mirror) (simp add: child)
  moreover have "list_ex (\<lambda>c. type c \<noteq> Unchanged) (concat (map (obj_child b a p) ?ks'))
      = list_ex (\<lambda>c. type c \<noteq> Unchanged) (concat (map (obj_child a b p) ?ks))"
    using ks_set by (rule list_ex_children) (simp add: child)
  ultimately show ?case using obj.hyps
    by (simp add: compareJSON_obj entries_container) (simp add: container_def entry_def)
qed

section \<open>Statistics of a two-level modification\<close>

text \<open>
  Claim C1, as stated: for old = \<^verbatim>\<open>{"a":{"b":1}}\<close> and new = \<^verbatim>\<open>{"a":{"b":2}}\<close>,
  \<open>getDiffStats\<close> of \<open>compareJSON\<close> with the empty path reports modified = 2.
  It does not: the count is not 2.
\<close>

theorem C1_modified_is_not_two:
  "modified (getDiffStats (compareJSON ex_old ex_new '''')) \<noteq> 2"
  by (simp add: ex_old_def ex_new_def eval_simps)

text \<open>
  Claim C1, amended: the result is one root at \<^verbatim>\<open>/\<close> holding the object at \<^verbatim>\<open>a\<close>, which
  holds the leaf at \<^verbatim>\<open>a.b\<close>; all three are Modified, and \<open>getDiffStats\<close> reports
  modified = 3 and zero in the other three buckets.
\<close>

theorem C1_modified_is_three:
  "compareJSON ex_old ex_new '''' =
     [DiffNode ''/'' Modified (Some ex_old) (Some ex_new) (Some
       [DiffNode ''a'' Modified (Some (JObj [(''b'', JNum (Finite 1))]))
          (Some (JObj [(''b'', JNum (Finite 2))])) (Some
          [DiffNode ''a.b'' Modified (Some (JNum (Finite 1))) (Some (JNum (Finite 2))) None])])]
   \<and> getDiffStats (compareJSON ex_old ex_new '''') =
       \<lparr>added = 0, removed = 0, modified = 3, unchanged = 0\<rparr>"
  by (simp add: ex_old_def ex_new_def eval_simps)

section \<open>The statistics count every node once\<close>

lemma countDiffs_counts:
  "countDiffs nodes st =
     \<lparr>added = added st + count_type Added nodes,
      removed = removed st + count_type Removed nodes,
      modified = modified st + count_type Modified nodes,
      unchanged = unchanged st + count_type Unchanged nodes\<rparr>"
proof (induction nodes st rule: countDiffs.induct)
  case (1 st)
  then show ?case by (simp add: count_type_def)
next
  case (2 p t ov nv nodes st)
  then show ?case by (cases t) (simp_all add: count_type_def)
next
  case (3 p t ov nv cs nodes st)
  then show ?case by (cases t) (simp_all add: count_type_def)
qed

lemma count_type_total:
  "count_type Added nodes + count_type Removed nodes + count_type Modified nodes
     + count_type Unchanged nodes = length (all_nodes nodes)"
proof -
  have "length (filter (\<lambda>n. type n = Added) xs) + length (filter (\<lambda>n. type n = Removed) xs)
      + length (filter (\<lambda>n. type n = Modified) xs) + length (filter (\<lambda>n. type n = Unchanged) xs)
      = length xs" for xs :: "DiffNode list"
  proof (induction xs)
    case Nil
    show ?case by simp
  next
    case (Cons x xs)
    then show ?case by (cases "type x") simp_all
  qed
  then show ?thesis by (simp add: count_type_def)
qed

text \<open>
  Claim C2: for every forest, \<open>getDiffStats\<close> visits every node of every tree, container
  or leaf, and each node adds one to the bucket of its own classification: each bucket is
  the number of nodes of that classification, and the four buckets add up to the number
  of nodes of the forest.
\<close>

theorem C2_stats_count_every_node:
  "getDiffStats nodes =
     \<lparr>added = count_type Added nodes, removed = count_type Removed nodes,
      modified = count_type Modified nodes, unchanged = count_type Unchanged nodes\<rparr>
   \<and> added (getDiffStats nodes) + removed (getDiffStats nodes) + modified (getDiffStats nodes)
       + unchanged (getDiffStats nodes) = length (all_nodes nodes)"
  by (simp add: getDiffStats_def countDiffs_counts count_type_total)

section \<open>The classification rule\<close>

text \<open>
  The rule itself holds in every tree that \<open>compareJSON\<close> returns: a node with both values
  and no children is Unchanged iff its two values are deep-equal and Modified otherwise; a
  node with children is Unchanged iff all its children are Unchanged and Modified
  otherwise; a node with one value only is Added (new value only) or Removed (old value
  only) and has no children.
\<close>

lemma nodes_are_classified: "list_all classified (all_nodes (compareJSON a b p))"
  using classified_all [of _ a b p] by (simp add: list_all_iff)

text \<open>
  An index that one array only has gives an Added or Removed leaf among the children, and
  so does a key that one object only has, if \<^verbatim>\<open>key in\<close> the other object is false: the key
  is no own key of the other object and no property name of \<^verbatim>\<open>Object.prototype\<close>.
\<close>

lemma one_sided_leaves:
  assumes n: "compareJSON a b p = [n]"
  shows "isArray a \<and> isArray b \<and> length (elems a) \<le> i \<and> i < length (elems b) \<Longrightarrow>
           DiffNode (itemPath p i) Added None (Some (elems b ! i)) None \<in> set (kids n)"
    and "isArray a \<and> isArray b \<and> length (elems b) \<le> i \<and> i < length (elems a) \<Longrightarrow>
           DiffNode (itemPath p i) Removed (Some (elems a ! i)) None None \<in> set (kids n)"
    and "is_object a \<and> is_object b \<and> key \<in> set (Object_keys b) \<and> \<not> has_key key a
           \<and> get_prop b key = Some v \<Longrightarrow>
           DiffNode (keyPath p key) Added None (Some v) None \<in> set (kids n)"
    and "is_object a \<and> is_object b \<and> key \<in> set (Object_keys a) \<and> \<not> has_key key b
           \<and> get_prop a key = Some v \<Longrightarrow>
           DiffNode (keyPath p key) Removed (Some v) None None \<in> set (kids n)"
proof -
  show "DiffNode (itemPath p i) Added None (Some (elems b ! i)) None \<in> set (kids n)"
    if i: "isArray a \<and> isArray b \<and> length (elems a) \<le> i \<and> i < length (elems b)"
  proof -
    from i obtain xs ys where ab: "a = JArr xs" "b = JArr ys" by (cases a; cases b) auto
    with i have "DiffNode (itemPath p i) Added None (Some (ys ! i)) None \<in> set (arr_child xs ys p i)"
      by (simp add: arr_child_def)
    with n ab i show ?thesis by (auto intro: kids_arr [of xs ys p n i])
  qed
  show "DiffNode (itemPath p i) Removed (Some (elems a ! i)) None None \<in> set (kids n)"
    if i: "isArray a \<and> isArray b \<and> length (elems b) \<le> i \<and> i < length (elems a)"
  proof -
    from i obtain xs ys where ab: "a = JArr xs" "b = JArr ys" by (cases a; cases b) auto
    with i have "DiffNode (itemPath p i) Removed (Some (xs ! i)) None None \<in> set (arr_child xs ys p i)"
      by (simp add: arr_child_def)
    with n ab i show ?thesis by (auto intro: kids_arr [of xs ys p n i])
  qed
  show "DiffNode (keyPath p key) Added None (Some v) None \<in> set (kids n)"
    if k: "is_object a \<and> is_object b \<and> key \<in> set (Object_keys b) \<and> \<not> has_key key a
           \<and> get_prop b key = Some v"
  proof -
    from k have "has_key key b" by (simp add: has_key_get_prop)
    with k have "DiffNode (keyPath p key) Added None (Some v) None \<in> set (obj_child a b p key)"
      by (simp add: obj_child_def)
    with n k show ?thesis by (auto intro: kids_obj [of a b p n key])
  qed
  show "DiffNode (keyPath p key) Removed (Some v) None None \<in> set (kids n)"
    if k: "is_object a \<and> is_object b \<and> key \<in> set (Object_keys a) \<and> \<not> has_key key b
           \<and> get_prop a key = Some v"
  proof -
    from k have "has_key key a" by (simp add: has_key_get_prop)
    with k have "DiffNode (keyPath p key) Removed (Some v) None None \<in> set (obj_child a b p key)"
      by (simp add: obj_child_def)
    with n k show ?thesis by (auto intro: kids_obj [of a b p n key])
  qed
qed

text \<open>
  Claim C3: in every tree that \<open>compareJSON\<close> returns, a node is Unchanged iff its values
  are deep-equal (leaves) or all its children are Unchanged (containers), and Modified
  otherwise, except that where a key or index is on one side only the node is Added or
  Removed directly, with no recursion into the one-sided value.
  The code breaks the last part for a key that is a property name of \<^verbatim>\<open>Object.prototype\<close>:
  \<^verbatim>\<open>{}\<close> against \<^verbatim>\<open>{"toString":1}\<close> are two JSON documents, the key \<^verbatim>\<open>toString\<close> is in the
  new one only, and yet its node is not an Added leaf with the new value only: the loop
  tests \<^verbatim>\<open>key in oldObj\<close>, which the inherited method makes true, takes the recursive branch
  and returns a Modified leaf whose old value is that method.
\<close>

theorem C3_inherited_key_is_not_added:
  "is_json ex_empty \<and> is_json ex_toString
   \<and> ''toString'' \<notin> set (Object_keys ex_empty) \<and> ''toString'' \<in> set (Object_keys ex_toString)
   \<and> compareJSON ex_empty ex_toString '''' =
       [DiffNode ''/'' Modified (Some ex_empty) (Some ex_toString) (Some
          [DiffNode ''toString'' Modified (Some (JFunction ''toString'')) (Some (JNum (Finite 1)))
             None])]"
  by (simp add: ex_empty_def ex_toString_def eval_simps)

section \<open>Reflexivity\<close>

text \<open>
  Claim C4: for every value \<open>v\<close>, \<open>compareJSON v v p\<close> yields a tree, one root, and every
  node of it, at every depth, is Unchanged; in particular for the empty path.
\<close>

theorem C4_reflexivity:
  "\<exists>n. compareJSON v v p = [n] \<and> list_all (\<lambda>n. type n = Unchanged) (all_nodes [n])"
proof -
  obtain n where n: "compareJSON v v p = [n]" using compareJSON_single by blast
  have "list_all (\<lambda>n. type n = Unchanged) (all_nodes (compareJSON v v p))"
    by (rule all_unchanged) simp
  with n show ?thesis by simp
qed

section \<open>Symmetry of shape\<close>

text \<open>
  Claim C5: \<open>compareJSON a b p\<close> and \<open>compareJSON b a p\<close> have the same nodes up to the
  order of children: the entries of the one are the mirror images of the entries of the
  other, path by path, so an Added node of one is a Removed node of the other at the same
  path and with the same value, and a Modified or Unchanged node keeps its classification
  with its two values swapped; and the two trees have the same set of paths. Each of the
  two results is a tree, one root.
\<close>

theorem C5_symmetry_of_shape:
  "entries (compareJSON b a p) = image_mset mirror (entries (compareJSON a b p))
   \<and> path ` set (all_nodes (compareJSON b a p)) = path ` set (all_nodes (compareJSON a b p))
   \<and> (\<exists>n m. compareJSON a b p = [n] \<and> compareJSON b a p = [m])"
proof -
  have e: "entries (compareJSON b a p) = image_mset mirror (entries (compareJSON a b p))"
    using symmetry by blast
  have paths: "path ` set (all_nodes ns) = fst ` set_mset (entries ns)" for ns
    by (auto simp: entries_def entry_def image_iff)
  have "fst ` set_mset (image_mset mirror M) = fst ` set_mset M" for M :: "entry multiset"
    by (auto simp: image_iff) force+
  with e have "path ` set (all_nodes (compareJSON b a p)) = path ` set (all_nodes (compareJSON a b p))"
    by (simp only: paths)
  moreover have "\<exists>n m. compareJSON a b p = [n] \<and> compareJSON b a p = [m]"
    using compareJSON_single [of a b p] compareJSON_single [of b a p] by blast
  ultimately show ?thesis using e by blast
qed

section \<open>A change of kind is one leaf\<close>

text \<open>
  Claim C6: whenever the two compared values have different kinds (the answers of
  \<open>getValueType\<close>: null, boolean, number, string, array, object), \<open>compareJSON\<close> returns
  exactly one Modified node
  with the whole old value, the whole new value and no children; and for
  \<^verbatim>\<open>{"a": 1}\<close> against \<^verbatim>\<open>{"a": [1]}\<close> the node at key \<^verbatim>\<open>a\<close> is one Modified leaf with old
  \<^verbatim>\<open>1\<close> and new \<^verbatim>\<open>[1]\<close>.
\<close>

theorem C6_kind_mismatch_is_one_leaf:
  "(getValueType a \<noteq> getValueType b \<longrightarrow>
      compareJSON a b p = [DiffNode (path_or_root p) Modified (Some a) (Some b) None])
   \<and> compareJSON (JObj [(''a'', JNum (Finite 1))]) (JObj [(''a'', JArr [JNum (Finite 1)])]) '''' =
       [DiffNode ''/'' Modified (Some (JObj [(''a'', JNum (Finite 1))]))
          (Some (JObj [(''a'', JArr [JNum (Finite 1)])]))
          (Some [DiffNode ''a'' Modified (Some (JNum (Finite 1))) (Some (JArr [JNum (Finite 1)])) None])]"
proof
  show "getValueType a \<noteq> getValueType b \<longrightarrow>
      compareJSON a b p = [DiffNode (path_or_root p) Modified (Some a) (Some b) None]"
    by (simp add: compareJSON_kinds)
  show "compareJSON (JObj [(''a'', JNum (Finite 1))]) (JObj [(''a'', JArr [JNum (Finite 1)])]) '''' =
       [DiffNode ''/'' Modified (Some (JObj [(''a'', JNum (Finite 1))]))
          (Some (JObj [(''a'', JArr [JNum (Finite 1)])]))
          (Some [DiffNode ''a'' Modified (Some (JNum (Finite 1))) (Some (JArr [JNum (Finite 1)])) None])]"
    by (simp add: eval_simps)
qed

theorem C6_kind_mismatch_witness:
  "getValueType (JNum (Finite 1)) \<noteq> getValueType (JArr [JNum (Finite 1)])
   \<and> compareJSON (JNum (Finite 1)) (JArr [JNum (Finite 1)]) ''a'' =
       [DiffNode ''a'' Modified (Some (JNum (Finite 1))) (Some (JArr [JNum (Finite 1)])) None]"
  using C6_kind_mismatch_is_one_leaf [of "JNum (Finite 1)" "JArr [JNum (Finite 1)]" "''a''"]
  by (simp add: path_or_root_def)

section \<open>Arrays are compared index by index\<close>

text \<open>
  Claim C7: two arrays are compared position by position over the indices below the
  larger length. The node of the comparison has one child per index, in order: an Added
  leaf at \<^verbatim>\<open><path>[i]\<close> with the new item only where only the new array has the index, a
  Removed leaf at \<^verbatim>\<open><path>[i]\<close> with the old item only where only the old array has it, and
  the node of the recursive comparison of the two items where both have it. So
  \<^verbatim>\<open>[1,2,3]\<close> against \<^verbatim>\<open>[0,1,2]\<close> gives three Modified leaves at \<^verbatim>\<open>[0]\<close>, \<^verbatim>\<open>[1]\<close>, \<^verbatim>\<open>[2]\<close>.
\<close>

theorem C7_arrays_by_index:
  "(\<exists>cs. compareJSON (JArr xs) (JArr ys) p =
           [DiffNode (path_or_root p)
              (if list_ex (\<lambda>c. type c \<noteq> Unchanged) cs then Modified else Unchanged)
              (Some (JArr xs)) (Some (JArr ys)) (Some cs)]
        \<and> length cs = max (length xs) (length ys)
        \<and> (\<forall>i < length cs.
              (length xs \<le> i \<longrightarrow> cs ! i = DiffNode (itemPath p i) Added None (Some (ys ! i)) None)
            \<and> (length ys \<le> i \<longrightarrow> cs ! i = DiffNode (itemPath p i) Removed (Some (xs ! i)) None None)
            \<and> (i < length xs \<and> i < length ys \<longrightarrow>
                 compareJSON (xs ! i) (ys ! i) (itemPath p i) = [cs ! i])))
   \<and> compareJSON ex_arr_old ex_arr_new '''' =
       [DiffNode ''/'' Modified (Some ex_arr_old) (Some ex_arr_new) (Some
          [DiffNode ''[0]'' Modified (Some (JNum (Finite 1))) (Some (JNum (Finite 0))) None,
           DiffNode ''[1]'' Modified (Some (JNum (Finite 2))) (Some (JNum (Finite 1))) None,
           DiffNode ''[2]'' Modified (Some (JNum (Finite 3))) (Some (JNum (Finite 2))) None])]"
proof
  let ?n = "max (length xs) (length ys)"
  let ?cs = "map (\<lambda>i. hd (arr_child xs ys p i)) [0..<?n]"
  have root: "compareJSON (JArr xs) (JArr ys) p =
           [DiffNode (path_or_root p)
              (if list_ex (\<lambda>c. type c \<noteq> Unchanged) ?cs then Modified else Unchanged)
              (Some (JArr xs)) (Some (JArr ys)) (Some ?cs)]"
    by (simp only: compareJSON_arr arr_children container_def)
  have len: "length ?cs = ?n" by simp
  have child: "(length xs \<le> i \<longrightarrow> ?cs ! i = DiffNode (itemPath p i) Added None (Some (ys ! i)) None)
            \<and> (length ys \<le> i \<longrightarrow> ?cs ! i = DiffNode (itemPath p i) Removed (Some (xs ! i)) None None)
            \<and> (i < length xs \<and> i < length ys \<longrightarrow>
                 compareJSON (xs ! i) (ys ! i) (itemPath p i) = [?cs ! i])" if "i < length ?cs" for i
  proof -
    from that have i: "i < ?n" by simp
    obtain n where n: "compareJSON (xs ! i) (ys ! i) (itemPath p i) = [n]"
      using compareJSON_single by blast
    from i have "?cs ! i = hd (arr_child xs ys p i)" by simp
    with i n show ?thesis by (auto simp: arr_child_def)
  qed
  from root len child
  show "\<exists>cs. compareJSON (JArr xs) (JArr ys) p =
           [DiffNode (path_or_root p)
              (if list_ex (\<lambda>c. type c \<noteq> Unchanged) cs then Modified else Unchanged)
              (Some (JArr xs)) (Some (JArr ys)) (Some cs)]
        \<and> length cs = max (length xs) (length ys)
        \<and> (\<forall>i < length cs.
              (length xs \<le> i \<longrightarrow> cs ! i = DiffNode (itemPath p i) Added None (Some (ys ! i)) None)
            \<and> (length ys \<le> i \<longrightarrow> cs ! i = DiffNode (itemPath p i) Removed (Some (xs ! i)) None None)
            \<and> (i < length xs \<and> i < length ys \<longrightarrow>
                 compareJSON (xs ! i) (ys ! i) (itemPath p i) = [cs ! i]))"
    by blast
  show "compareJSON ex_arr_old ex_arr_new '''' =
       [DiffNode ''/'' Modified (Some ex_arr_old) (Some ex_arr_new) (Some
          [DiffNode ''[0]'' Modified (Some (JNum (Finite 1))) (Some (JNum (Finite 0))) None,
           DiffNode ''[1]'' Modified (Some (JNum (Finite 2))) (Some (JNum (Finite 1))) None,
           DiffNode ''[2]'' Modified (Some (JNum (Finite 3))) (Some (JNum (Finite 2))) None])]"
    by (simp add: ex_arr_old_def ex_arr_new_def eval_simps upt_rec [of 0] upt_rec [of 1] upt_rec [of 2])
qed


text \<open>The theorem at \<^verbatim>\<open>["u","v"]\<close> against \<^verbatim>\<open>["u"]\<close> under the path \<^verbatim>\<open>x\<close>.\<close>

theorem C7_arrays_by_index_witness:
  "\<exists>cs. compareJSON (JArr [JStr ''u'', JStr ''v'']) (JArr [JStr ''u'']) ''x'' =
          [DiffNode ''x'' Modified (Some (JArr [JStr ''u'', JStr ''v''])) (Some (JArr [JStr ''u'']))
             (Some cs)]
      \<and> cs = [DiffNode ''x[0]'' Unchanged (Some (JStr ''u'')) (Some (JStr ''u'')) None,
               DiffNode ''x[1]'' Removed (Some (JStr ''v'')) None None]"
proof -
  from C7_arrays_by_index [of "[JStr ''u'', JStr ''v'']" "[JStr ''u'']" "''x''"]
  obtain cs where
    root: "compareJSON (JArr [JStr ''u'', JStr ''v'']) (JArr [JStr ''u'']) ''x'' =
           [DiffNode (path_or_root ''x'')
              (if list_ex (\<lambda>c. type c \<noteq> Unchanged) cs then Modified else Unchanged)
              (Some (JArr [JStr ''u'', JStr ''v''])) (Some (JArr [JStr ''u''])) (Some cs)]"
    and len: "length cs = 2"
    and child: "\<And>i. i < length cs \<Longrightarrow>
              (length [JStr ''u'', JStr ''v''] \<le> i \<longrightarrow>
                 cs ! i = DiffNode (itemPath ''x'' i) Added None (Some ([JStr ''u''] ! i)) None)
            \<and> (length [JStr ''u''] \<le> i \<longrightarrow>
                 cs ! i = DiffNode (itemPath ''x'' i) Removed (Some ([JStr ''u'', JStr ''v''] ! i)) None None)
            \<and> (i < length [JStr ''u'', JStr ''v''] \<and> i < length [JStr ''u''] \<longrightarrow>
                 compareJSON ([JStr ''u'', JStr ''v''] ! i) ([JStr ''u''] ! i) (itemPath ''x'' i) = [cs ! i])"
    by auto
  from len obtain c0 c1 where cs: "cs = [c0, c1]"
    by (cases cs; cases "tl cs"; cases "tl (tl cs)") auto
  from child [of 0] cs have c0: "c0 = DiffNode ''x[0]'' Unchanged (Some (JStr ''u'')) (Some (JStr ''u'')) None"
    by (simp add: itemPath_def eval_simps)
  from child [of 1] cs have c1: "c1 = DiffNode ''x[1]'' Removed (Some (JStr ''v'')) None None"
    by (simp add: itemPath_def eval_simps)
  from root cs c0 c1 show ?thesis by (simp add: path_or_root_def)
qed

section \<open>Field presence\<close>

text \<open>
  Claim C8: in every node that \<open>compareJSON\<close> produces, the old value is absent exactly
  when the node is Added and the new value is absent exactly when the node is Removed; so
  every Modified or Unchanged node carries both values.
\<close>

theorem C8_field_presence:
  "\<forall>n \<in> set (all_nodes (compareJSON a b p)).
     (oldValue n = None) = (type n = Added) \<and> (newValue n = None) = (type n = Removed)"
  using presence_all [of _ a b p] by (simp add: presence_def)

theorem C8_field_presence_witness:
  "DiffNode ''y'' Added None (Some (JNum (Finite 1))) None \<in> set (all_nodes (compareJSON ex_x ex_y ''''))
   \<and> (oldValue (DiffNode ''y'' Added None (Some (JNum (Finite 1))) None) = None)
       = (type (DiffNode ''y'' Added None (Some (JNum (Finite 1))) None) = Added)
   \<and> (newValue (DiffNode ''y'' Added None (Some (JNum (Finite 1))) None) = None)
       = (type (DiffNode ''y'' Added None (Some (JNum (Finite 1))) None) = Removed)"
proof -
  have "DiffNode ''y'' Added None (Some (JNum (Finite 1))) None \<in> set (all_nodes (compareJSON ex_x ex_y ''''))"
    by (simp add: ex_xy)
  with C8_field_presence [of ex_x ex_y "''''"] show ?thesis by blast
qed

section \<open>One root per comparison\<close>

text \<open>
  Claim C9: for every pair of values and every path, \<open>compareJSON\<close> returns a sequence of
  exactly one node. The function is total (its termination is proved with its definition)
  and has no error branch; the fall-through \<^verbatim>\<open>return diffs\<close> with no node is never reached.
\<close>

theorem C9_exactly_one_root: "\<exists>n. compareJSON a b p = [n]"
  by (rule compareJSON_single)

section \<open>The root is never one-sided\<close>

text \<open>
  Claim C10: the single root that \<open>compareJSON\<close> returns is Modified or Unchanged, never
  Added or Removed; and throughout the tree an Added or Removed node is a child of a
  container node, a leaf made for an index or key that only one of the container's two
  values has (\<open>sided_children\<close>).
\<close>

theorem C10_root_is_never_one_sided:
  "\<exists>n. compareJSON a b p = [n] \<and> (type n = Modified \<or> type n = Unchanged)
      \<and> list_all sided_children (all_nodes [n])"
proof -
  obtain n where n: "compareJSON a b p = [n]" using compareJSON_single by blast
  then have "type n = Modified \<or> type n = Unchanged" using compareJSON_root by blast
  moreover have "list_all sided_children (all_nodes [n])"
    using sided_children_all [of _ a b p] by (simp add: n list_all_iff)
  ultimately show ?thesis using n by blast
qed

theorem C10_root_is_never_one_sided_witness:
  "\<exists>n. compareJSON ex_x ex_y '''' = [n] \<and> type n = Modified
      \<and> kids n = [DiffNode ''x'' Removed (Some (JNum (Finite 1))) None None,
                  DiffNode ''y'' Added None (Some (JNum (Finite 1))) None]
      \<and> list_all sided_children (all_nodes [n])"
  using C10_root_is_never_one_sided [of ex_x ex_y "''''"] by (auto simp: ex_xy kids_def)

end
